theory Spec2Isabelle
  imports Main "HOL-Library.AList"
begin

section \<open>Query keys and their storage encoding\<close>

text \<open>
  The development embeds \<^verbatim>\<open>frontend/src/services/query-cache-invalidation.ts\<close>:
  the in-memory \<^verbatim>\<open>QueryCache\<close> and the rule engine \<^verbatim>\<open>QueryCacheInvalidator\<close>.

  Conventions of the embedding.
  \<^item> \<^verbatim>\<open>Date.now()\<close> is an explicit argument \<open>now\<close> of every operation that reads the
    clock; one synchronous call reads one instant.
  \<^item> A JavaScript string is a \<open>string\<close>; code units above U+00FF are not represented.
  \<^item> A JavaScript number is a \<open>jsnumber\<close>: an integer value, or one of the three
    non-finite values. Fractional values are not represented, and an integer is
    rendered in plain decimal, as JavaScript does below \<open>10\<^sup>2\<^sup>1\<close>; \<open>Finite 0\<close>
    stands for both zeros, which \<^verbatim>\<open>===\<close> and \<^verbatim>\<open>JSON.stringify\<close> do not tell apart
    either.
  \<^item> The \<^verbatim>\<open>Map\<close> of entries is an association list in insertion order
    (\<open>AList.update\<close> overwrites in place or appends, as \<^verbatim>\<open>Map.prototype.set\<close> does).
  \<^item> Subscribers and fetchers are observers and producers: they do not call back into
    the cache. What the subscribers see is kept as a trace.
\<close>

type_synonym time = int

datatype jsnumber = Finite int | NaN | PosInfinity | NegInfinity

text \<open>
  Modelled from the spec: the type \<^verbatim>\<open>QueryKey\<close> of \<^verbatim>\<open>../types/query-cache\<close> is not among
  the sources; the specification describes it as an ordered sequence of scalar segments
  (strings, numbers, booleans, or null).
\<close>

datatype segment = SString string | SNumber jsnumber | SBoolean bool | SNull

type_synonym QueryKey = "segment list"

subsection \<open>Decimal rendering of integers\<close>

definition digit_char :: "nat \<Rightarrow> char" where
  "digit_char d = ''0123456789'' ! d"

fun digits :: "nat \<Rightarrow> string" where
  "digits n = (if n < 10 then [digit_char n] else digits (n div 10) @ [digit_char (n mod 10)])"

declare digits.simps [simp del]

definition show_int :: "int \<Rightarrow> string" where
  "show_int i = (if i < 0 then CHR ''-'' # digits (nat (- i)) else digits (nat i))"

text \<open>\<^verbatim>\<open>Number.prototype.toString\<close> on the represented numbers.\<close>

fun Number_toString :: "jsnumber \<Rightarrow> string" where
  "Number_toString (Finite i) = show_int i"
| "Number_toString NaN = ''NaN''"
| "Number_toString PosInfinity = ''Infinity''"
| "Number_toString NegInfinity = ''-Infinity''"

text \<open>\<^verbatim>\<open>String(x)\<close> for a key segment.\<close>

fun String_segment :: "segment \<Rightarrow> string" where
  "String_segment (SString s) = s"
| "String_segment (SNumber n) = Number_toString n"
| "String_segment (SBoolean b) = (if b then ''true'' else ''false'')"
| "String_segment SNull = ''null''"

subsection \<open>\<^verbatim>\<open>JSON.stringify\<close> on arrays of scalars\<close>

definition hex_char :: "nat \<Rightarrow> char" where
  "hex_char d = ''0123456789abcdef'' ! d"

text \<open>
  One code unit of \<^verbatim>\<open>QuoteJSONString\<close>: the quotation mark and the reverse solidus are
  escaped, control characters have a short escape or \<^verbatim>\<open>\u00XX\<close>, every other code unit
  is copied.
\<close>

definition QuoteJSONChar :: "char \<Rightarrow> string" where
  "QuoteJSONChar c =
    (if c = CHR 0x08 then [CHR 0x5C, CHR ''b'']
     else if c = CHR 0x09 then [CHR 0x5C, CHR ''t'']
     else if c = CHR 0x0A then [CHR 0x5C, CHR ''n'']
     else if c = CHR 0x0C then [CHR 0x5C, CHR ''f'']
     else if c = CHR 0x0D then [CHR 0x5C, CHR ''r'']
     else if c = CHR 0x22 then [CHR 0x5C, CHR 0x22]
     else if c = CHR 0x5C then [CHR 0x5C, CHR 0x5C]
     else if (of_char c :: nat) < 0x20 then
       [CHR 0x5C, CHR ''u'', CHR ''0'', CHR ''0'',
        hex_char ((of_char c :: nat) div 16), hex_char ((of_char c :: nat) mod 16)]
     else [c])"

definition QuoteJSONString :: "string \<Rightarrow> string" where
  "QuoteJSONString s = CHR 0x22 # concat (map QuoteJSONChar s) @ [CHR 0x22]"

text \<open>A non-finite number is serialised as \<^verbatim>\<open>null\<close>.\<close>

fun json_number :: "jsnumber \<Rightarrow> string" where
  "json_number (Finite i) = show_int i"
| "json_number NaN = ''null''"
| "json_number PosInfinity = ''null''"
| "json_number NegInfinity = ''null''"

fun json_segment :: "segment \<Rightarrow> string" where
  "json_segment (SString s) = QuoteJSONString s"
| "json_segment (SNumber n) = json_number n"
| "json_segment (SBoolean b) = (if b then ''true'' else ''false'')"
| "json_segment SNull = ''null''"

fun json_elements :: "segment list \<Rightarrow> string" where
  "json_elements [] = []"
| "json_elements [x] = json_segment x"
| "json_elements (x # y # ys) = json_segment x @ CHR '','' # json_elements (y # ys)"

definition keyToString :: "QueryKey \<Rightarrow> string" where
  "keyToString k = CHR ''['' # json_elements k @ [CHR '']'']"

subsection \<open>Strict equality and \<^verbatim>\<open>hasPrefix\<close>\<close>

text \<open>\<^verbatim>\<open>a !== b\<close> on scalars: the negation of identity, except that NaN differs from itself.\<close>

definition strict_neq :: "segment \<Rightarrow> segment \<Rightarrow> bool" where
  "strict_neq a b = (a \<noteq> b \<or> a = SNumber NaN)"

text \<open>The \<^verbatim>\<open>for\<close> loop of \<^verbatim>\<open>hasPrefix\<close>, from index \<open>i\<close>.\<close>

function hasPrefix_loop :: "QueryKey \<Rightarrow> QueryKey \<Rightarrow> nat \<Rightarrow> bool" where
  "hasPrefix_loop k prefix i =
    (if i < length prefix then
       (if strict_neq (k ! i) (prefix ! i) then False else hasPrefix_loop k prefix (Suc i))
     else True)"
  by pat_completeness auto
termination
  by (relation "measure (\<lambda>(k, prefix, i). length prefix - i)") auto

declare hasPrefix_loop.simps [simp del]

definition hasPrefix :: "QueryKey \<Rightarrow> QueryKey \<Rightarrow> bool" where
  "hasPrefix k prefix =
    (if length prefix > length k then False else hasPrefix_loop k prefix 0)"

subsection \<open>The canonical key constructors \<^verbatim>\<open>QueryKeys\<close>\<close>

datatype gameId = GString string | GNumber jsnumber | GBigInt int

fun String_gameId :: "gameId \<Rightarrow> string" where
  "String_gameId (GString s) = s"
| "String_gameId (GNumber n) = Number_toString n"
| "String_gameId (GBigInt i) = show_int i"

definition balances_root :: QueryKey where
  "balances_root = [SString ''balances'', SString ''root'']"

definition balances_account :: "string \<Rightarrow> QueryKey" where
  "balances_account address = [SString ''balances'', SString ''account'', SString address]"

definition games_root :: QueryKey where
  "games_root = [SString ''games'', SString ''root'']"

definition games_byId :: "gameId \<Rightarrow> QueryKey" where
  "games_byId g = [SString ''games'', SString ''byId'', SString (String_gameId g)]"

definition games_recentByAddress :: "string \<Rightarrow> QueryKey" where
  "games_recentByAddress address = [SString ''games'', SString ''recentByAddress'', SString address]"

definition rewards_root :: QueryKey where
  "rewards_root = [SString ''rewards'', SString ''root'']"

definition rewards_byAddress :: "string \<Rightarrow> QueryKey" where
  "rewards_byAddress address = [SString ''rewards'', SString ''byAddress'', SString address]"

definition profile_root :: QueryKey where
  "profile_root = [SString ''profile'', SString ''root'']"

definition profile_byAddress :: "string \<Rightarrow> QueryKey" where
  "profile_byAddress address = [SString ''profile'', SString ''byAddress'', SString address]"


section \<open>Data model\<close>

text \<open>
  Modelled from the spec: the types \<^verbatim>\<open>QueryPolicy\<close>, \<^verbatim>\<open>CacheEntry\<close> and
  \<^verbatim>\<open>CacheInvalidationEvent\<close> of \<^verbatim>\<open>../types/query-cache\<close> are not among the sources;
  their fields are the ones the specification lists and the service reads and writes.
  The field \<^verbatim>\<open>method\<close> of a contract transaction is \<open>tx_method\<close> here.
\<close>

record QueryPolicy =
  staleTimeMs :: int
  refetchOnInvalidate :: bool

text \<open>The table \<^verbatim>\<open>QueryPolicies\<close>, looked up by own property name.\<close>

definition QueryPolicies :: "string \<Rightarrow> QueryPolicy option" where
  "QueryPolicies ns =
    (if ns = ''balances'' then Some \<lparr>staleTimeMs = 3000, refetchOnInvalidate = True\<rparr>
     else if ns = ''games'' then Some \<lparr>staleTimeMs = 10000, refetchOnInvalidate = True\<rparr>
     else if ns = ''rewards'' then Some \<lparr>staleTimeMs = 5000, refetchOnInvalidate = True\<rparr>
     else if ns = ''profile'' then Some \<lparr>staleTimeMs = 60000, refetchOnInvalidate = True\<rparr>
     else None)"

text \<open>
  \<^verbatim>\<open>QueryPolicies\<close> is an object literal, so a lookup also reaches the members it inherits
  from \<^verbatim>\<open>Object.prototype\<close>. Those are not policies; a key whose first segment renders as
  one of these names is outside what \<open>QueryPolicies\<close> describes, and the results on
  default policies exclude it.
\<close>

definition inherited_names :: "string list" where
  "inherited_names =
    [''constructor'', ''toString'', ''toLocaleString'', ''valueOf'', ''hasOwnProperty'',
     ''isPrototypeOf'', ''propertyIsEnumerable'', ''__proto__'', ''__defineGetter__'',
     ''__defineSetter__'', ''__lookupGetter__'', ''__lookupSetter__'']"

record EntryMeta =
  createdAt :: time
  updatedAt :: time
  staleAt :: time
  invalidatedAt :: "time option"

record 'd CacheEntry =
  key :: QueryKey
  data :: 'd
  policy :: QueryPolicy
  meta :: EntryMeta

datatype InvalidationReason =
  manual | tx_success | tx_failed_retryable | tx_failed_terminal
  | mutation_success | mutation_failed_retryable | mutation_failed_terminal
  | consistency_check

record ContractTx =
  contract :: string
  tx_method :: string
  txHash :: "string option"
  addresses :: "string list option"
  gameId :: "gameId option"

record Mutation =
  mutation_name :: string
  mutation_addresses :: "string list option"

record CacheInvalidationEvent =
  at :: time
  reason :: InvalidationReason
  contractTx :: "ContractTx option"
  mutation :: "Mutation option"

text \<open>A value that was thrown, or with which a promise was rejected.\<close>

datatype raw_error = Thrown string

text \<open>
  Modelled from the spec: the error normaliser \<^verbatim>\<open>toAppError(rawError, kind?, context?)\<close>
  of \<^verbatim>\<open>./error-mapping\<close> is not among the sources; the specification gives its interface
  only. An \<open>AppError\<close> is the normalised error, built from the three arguments.
\<close>

datatype AppError = AppError raw_error "string option" "(string \<times> QueryKey) list"

definition toAppError :: "raw_error \<Rightarrow> string option \<Rightarrow> (string \<times> QueryKey) list \<Rightarrow> AppError" where
  "toAppError e kind context = AppError e kind context"

text \<open>
  A \<^verbatim>\<open>Fetcher\<close> is a zero-argument asynchronous producer. It is modelled by the way its
  promise settles, as a function of the instant at which it is invoked: \<open>Inr d\<close> when it
  resolves with \<open>d\<close>, \<open>Inl e\<close> when it rejects with \<open>e\<close> (a fetcher that throws
  before it returns a promise counts as one that returns a rejected promise). A fetcher
  does not touch the cache itself.
\<close>

type_synonym 'd Fetcher = "time \<Rightarrow> raw_error + 'd"

text \<open>
  The state of a \<^verbatim>\<open>QueryCache\<close>. \<open>notified\<close> is the trace of the calls of
  \<^verbatim>\<open>notify\<close> (each one reaches every subscriber, whose exceptions are swallowed);
  \<open>inflight\<close> holds the background refetches started by \<^verbatim>\<open>void this.refetch(key)\<close>
  whose fetcher has been invoked and has not settled yet, with the settlement to come.
\<close>

record 'd QueryCache =
  entries :: "(string \<times> 'd CacheEntry) list"
  fetchers :: "string \<rightharpoonup> 'd Fetcher"
  maxEntries :: "int option"
  notified :: "(QueryKey \<times> 'd CacheEntry option) list"
  inflight :: "(QueryKey \<times> (raw_error + 'd)) list"

definition new_QueryCache :: "int option \<Rightarrow> 'd QueryCache" where
  "new_QueryCache opts =
    \<lparr>entries = [], fetchers = Map.empty, maxEntries = opts, notified = [], inflight = []\<rparr>"

section \<open>The cache store\<close>

definition notify :: "'d QueryCache \<Rightarrow> QueryKey \<Rightarrow> 'd CacheEntry option \<Rightarrow> 'd QueryCache" where
  "notify s k e = s\<lparr>notified := notified s @ [(k, e)]\<rparr>"

definition registerFetcher :: "'d QueryCache \<Rightarrow> QueryKey \<Rightarrow> 'd Fetcher \<Rightarrow> 'd QueryCache" where
  "registerFetcher s k f = s\<lparr>fetchers := (fetchers s)(keyToString k \<mapsto> f)\<rparr>"

definition unregisterFetcher :: "'d QueryCache \<Rightarrow> QueryKey \<Rightarrow> 'd QueryCache" where
  "unregisterFetcher s k = s\<lparr>fetchers := (fetchers s)(keyToString k := None)\<rparr>"

definition get :: "'d QueryCache \<Rightarrow> QueryKey \<Rightarrow> 'd CacheEntry option" where
  "get s k = map_of (entries s) (keyToString k)"

text \<open>\<^verbatim>\<open>String(key[0])\<close>; an empty key has no first segment.\<close>

definition namespace_of :: "QueryKey \<Rightarrow> string" where
  "namespace_of k = (case k of [] \<Rightarrow> ''undefined'' | seg # _ \<Rightarrow> String_segment seg)"

definition fallback_policy :: QueryPolicy where
  "fallback_policy = \<lparr>staleTimeMs = 30000, refetchOnInvalidate = True\<rparr>"

definition effectivePolicy :: "QueryKey \<Rightarrow> QueryPolicy option \<Rightarrow> QueryPolicy" where
  "effectivePolicy k pol =
    (case pol of
       Some p \<Rightarrow> p
     | None \<Rightarrow> (case QueryPolicies (namespace_of k) of
                  Some p \<Rightarrow> p
                | None \<Rightarrow> fallback_policy))"

text \<open>
  \<^verbatim>\<open>enforceMaxEntries\<close>. \<^verbatim>\<open>!this.maxEntries\<close> holds for an absent bound and for 0.
  \<^verbatim>\<open>Array.prototype.sort\<close> is stable, as \<open>sort_key\<close> is. An index past the end of
  \<^verbatim>\<open>all\<close> reads \<^verbatim>\<open>undefined\<close> and is skipped, so the victims are the first
  \<open>toRemove\<close> elements that exist.
\<close>

definition enforceMaxEntries :: "'d QueryCache \<Rightarrow> 'd QueryCache" where
  "enforceMaxEntries s =
    (case maxEntries s of
       None \<Rightarrow> s
     | Some n \<Rightarrow>
        if n = 0 then s
        else if int (length (entries s)) \<le> n then s
        else
          let all = sort_key (\<lambda>e. updatedAt (meta e)) (map snd (entries s));
              toRemove = int (length (entries s)) - n
          in s\<lparr>entries :=
                 foldl (\<lambda>es victim. AList.delete (keyToString (key victim)) es)
                   (entries s) (take (nat toRemove) all)\<rparr>)"

definition new_entry :: "'d QueryCache \<Rightarrow> QueryKey \<Rightarrow> 'd \<Rightarrow> QueryPolicy option \<Rightarrow> time \<Rightarrow> 'd CacheEntry" where
  "new_entry s k d pol ts =
    (let existing = get s k;
         p = effectivePolicy k pol
     in \<lparr>key = k, data = d, policy = p,
         meta = \<lparr>createdAt = (case existing of Some e \<Rightarrow> createdAt (meta e) | None \<Rightarrow> ts),
                 updatedAt = ts,
                 staleAt = ts + staleTimeMs p,
                 invalidatedAt = (case existing of Some e \<Rightarrow> invalidatedAt (meta e) | None \<Rightarrow> None)\<rparr>\<rparr>)"

text \<open>\<^verbatim>\<open>set\<close> returns the entry it wrote and the new state.\<close>

definition set_entry :: "'d QueryCache \<Rightarrow> QueryKey \<Rightarrow> 'd \<Rightarrow> QueryPolicy option \<Rightarrow> time \<Rightarrow> 'd CacheEntry \<times> 'd QueryCache" where
  "set_entry s k d pol ts =
    (let entry = new_entry s k d pol ts;
         s1 = s\<lparr>entries := AList.update (keyToString k) entry (entries s)\<rparr>;
         s2 = enforceMaxEntries s1
     in (entry, notify s2 k (Some entry)))"

definition isStale :: "'d QueryCache \<Rightarrow> QueryKey \<Rightarrow> time \<Rightarrow> bool" where
  "isStale s k ts =
    (case get s k of
       None \<Rightarrow> True
     | Some entry \<Rightarrow>
        if invalidatedAt (meta entry) \<noteq> None then True
        else ts \<ge> staleAt (meta entry))"

text \<open>
  The synchronous part of \<^verbatim>\<open>refetch\<close>, up to its \<^verbatim>\<open>await\<close>: without a fetcher the call
  is over (its error result is dropped by \<^verbatim>\<open>void\<close>); with one, the fetcher is invoked
  and the call waits for the settlement.
\<close>

definition start_refetch :: "'d QueryCache \<Rightarrow> QueryKey \<Rightarrow> time \<Rightarrow> 'd QueryCache" where
  "start_refetch s k ts =
    (case fetchers s (keyToString k) of
       None \<Rightarrow> s
     | Some fetcher \<Rightarrow> s\<lparr>inflight := inflight s @ [(k, fetcher ts)]\<rparr>)"

definition mark_invalidated :: "time \<Rightarrow> 'd CacheEntry \<Rightarrow> 'd CacheEntry" where
  "mark_invalidated ts e = e\<lparr>meta := (meta e)\<lparr>invalidatedAt := Some ts\<rparr>\<rparr>"

text \<open>\<^verbatim>\<open>invalidate(key, _evt?)\<close>; the event is not read.\<close>

definition invalidate :: "'d QueryCache \<Rightarrow> QueryKey \<Rightarrow> CacheInvalidationEvent option \<Rightarrow> time \<Rightarrow> 'd QueryCache" where
  "invalidate s k evt ts =
    (case map_of (entries s) (keyToString k) of
       None \<Rightarrow> s
     | Some e \<Rightarrow>
        let updated = mark_invalidated ts e;
            s1 = s\<lparr>entries := AList.update (keyToString k) updated (entries s)\<rparr>;
            s2 = notify s1 k (Some updated)
        in if refetchOnInvalidate (policy updated) then start_refetch s2 k ts else s2)"

text \<open>
  \<^verbatim>\<open>invalidatePrefix\<close> walks \<^verbatim>\<open>this.entries.values()\<close>. The calls of \<^verbatim>\<open>invalidate\<close> in
  the loop body overwrite entries in place and keep every \<^verbatim>\<open>key\<close> field, so the keys
  the iterator yields are those stored when the loop starts.
\<close>

definition invalidatePrefix :: "'d QueryCache \<Rightarrow> QueryKey \<Rightarrow> CacheInvalidationEvent option \<Rightarrow> time \<Rightarrow> 'd QueryCache" where
  "invalidatePrefix s prefix evt ts =
    foldl (\<lambda>s' k. if hasPrefix k prefix then invalidate s' k evt ts else s')
      s (map (\<lambda>(slot, e). key e) (entries s))"

definition remove :: "'d QueryCache \<Rightarrow> QueryKey \<Rightarrow> 'd QueryCache" where
  "remove s k = notify (s\<lparr>entries := AList.delete (keyToString k) (entries s)\<rparr>) k None"

text \<open>
  The part of a fetch after the \<^verbatim>\<open>await\<close>. \<open>getOrFetch\<close> and \<open>refetch\<close> are modelled
  without other operations running between the invocation of the fetcher and its
  settlement.
\<close>

definition missing_fetcher :: "QueryKey \<Rightarrow> AppError" where
  "missing_fetcher k = toAppError (Thrown ''Missing fetcher'') None [(''key'', k)]"

text \<open>The first line of \<^verbatim>\<open>getOrFetch\<close>: the data of an entry that exists and is not stale.\<close>

definition fresh_data :: "'d QueryCache \<Rightarrow> QueryKey \<Rightarrow> time \<Rightarrow> 'd option" where
  "fresh_data s k ts =
    (case get s k of
       Some existing \<Rightarrow> if \<not> isStale s k ts then Some (data existing) else None
     | None \<Rightarrow> None)"

definition getOrFetch :: "'d QueryCache \<Rightarrow> QueryKey \<Rightarrow> time \<Rightarrow> (AppError + 'd) \<times> 'd QueryCache" where
  "getOrFetch s k ts =
    (case fresh_data s k ts of
       Some d \<Rightarrow> (Inr d, s)
     | None \<Rightarrow>
        (case fetchers s (keyToString k) of
           None \<Rightarrow> (Inl (missing_fetcher k), s)
         | Some fetcher \<Rightarrow>
            (case fetcher ts of
               Inr d \<Rightarrow> (Inr d, snd (set_entry s k d None ts))
             | Inl e \<Rightarrow> (Inl (toAppError e None [(''key'', k)]), s))))"

definition consistency_event :: "time \<Rightarrow> CacheInvalidationEvent" where
  "consistency_event ts = \<lparr>at = ts, reason = consistency_check, contractTx = None, mutation = None\<rparr>"

text \<open>The \<^verbatim>\<open>try\<close>/\<^verbatim>\<open>catch\<close> of \<^verbatim>\<open>refetch\<close>, once the fetcher has settled.\<close>

definition settle_refetch :: "'d QueryCache \<Rightarrow> QueryKey \<Rightarrow> raw_error + 'd \<Rightarrow> time \<Rightarrow> (AppError + 'd) \<times> 'd QueryCache" where
  "settle_refetch s k settled ts =
    (case settled of
       Inr d \<Rightarrow> (Inr d, snd (set_entry s k d None ts))
     | Inl e \<Rightarrow>
        (Inl (toAppError e None [(''key'', k)]),
         invalidate s k (Some (consistency_event ts)) ts))"

definition refetch :: "'d QueryCache \<Rightarrow> QueryKey \<Rightarrow> time \<Rightarrow> (AppError + 'd) \<times> 'd QueryCache" where
  "refetch s k ts =
    (case fetchers s (keyToString k) of
       None \<Rightarrow> (Inl (missing_fetcher k), s)
     | Some fetcher \<Rightarrow> settle_refetch s k (fetcher ts) ts)"


text \<open>
  One step of the event loop on the background refetches: the oldest one in flight
  settles at \<open>ts\<close> and the rest of \<^verbatim>\<open>refetch\<close> runs; its result is dropped.
\<close>

definition settle_next :: "'d QueryCache \<Rightarrow> time \<Rightarrow> 'd QueryCache" where
  "settle_next s ts =
    (case inflight s of
       [] \<Rightarrow> s
     | (k, settled) # rest \<Rightarrow> snd (settle_refetch (s\<lparr>inflight := rest\<rparr>) k settled ts))"


section \<open>The invalidation rule engine\<close>

datatype TxOutcome = TxOk "string option" | TxFailed AppError bool

record InvalidationRuleInput =
  outcome :: TxOutcome
  event :: CacheInvalidationEvent

definition invalidateBalances :: "'d QueryCache \<Rightarrow> string list \<Rightarrow> CacheInvalidationEvent \<Rightarrow> time \<Rightarrow> 'd QueryCache" where
  "invalidateBalances s addrs evt ts =
    foldl (\<lambda>s' addr. invalidate s' (balances_account addr) (Some evt) ts) s addrs"

text \<open>\<^verbatim>\<open>QueryKeys.games.byId(String(gameId))\<close>: the constructor receives a string.\<close>

definition invalidateCoinFlip :: "'d QueryCache \<Rightarrow> string list \<Rightarrow> gameId option \<Rightarrow> CacheInvalidationEvent \<Rightarrow> time \<Rightarrow> 'd QueryCache" where
  "invalidateCoinFlip s addrs gid evt ts =
    (let s1 = (case gid of
                 Some g \<Rightarrow> invalidate s (games_byId (GString (String_gameId g))) (Some evt) ts
               | None \<Rightarrow> s)
     in foldl (\<lambda>s' addr. invalidate s' (games_recentByAddress addr) (Some evt) ts) s1 addrs)"

definition invalidateAchievementBadge :: "'d QueryCache \<Rightarrow> string list \<Rightarrow> CacheInvalidationEvent \<Rightarrow> time \<Rightarrow> 'd QueryCache" where
  "invalidateAchievementBadge s addrs evt ts =
    foldl (\<lambda>s' addr.
        invalidate (invalidate s' (rewards_byAddress addr) (Some evt) ts)
          (profile_byAddress addr) (Some evt) ts)
      s addrs"

definition rule_reason :: "TxOutcome \<Rightarrow> InvalidationReason" where
  "rule_reason out =
    (case out of
       TxOk h \<Rightarrow> tx_success
     | TxFailed err retryable \<Rightarrow> if retryable then tx_failed_retryable else tx_failed_terminal)"

text \<open>The event \<^verbatim>\<open>evt\<close> that \<^verbatim>\<open>applyRules\<close> stamps and hands to every rule.\<close>

definition rule_event :: "InvalidationRuleInput \<Rightarrow> time \<Rightarrow> CacheInvalidationEvent" where
  "rule_event input ts =
    (event input)\<lparr>
      at := ts,
      reason := rule_reason (outcome input),
      contractTx :=
        (case contractTx (event input) of
           None \<Rightarrow> None
         | Some c \<Rightarrow>
            Some (c\<lparr>txHash := (case outcome input of
                                  TxOk h \<Rightarrow> h
                                | TxFailed err retryable \<Rightarrow> txHash c)\<rparr>))\<rparr>"

text \<open>\<^verbatim>\<open>evt.contractTx?.addresses ?? evt.mutation?.addresses ?? []\<close>\<close>

definition rule_addresses :: "CacheInvalidationEvent \<Rightarrow> string list" where
  "rule_addresses evt =
    (case (case contractTx evt of None \<Rightarrow> None | Some c \<Rightarrow> addresses c) of
       Some a \<Rightarrow> a
     | None \<Rightarrow>
        (case (case mutation evt of None \<Rightarrow> None | Some m \<Rightarrow> mutation_addresses m) of
           Some a \<Rightarrow> a
         | None \<Rightarrow> []))"

definition contract_is :: "CacheInvalidationEvent \<Rightarrow> string \<Rightarrow> bool" where
  "contract_is evt name = (case contractTx evt of None \<Rightarrow> False | Some c \<Rightarrow> contract c = name)"

definition applyRules :: "'d QueryCache \<Rightarrow> InvalidationRuleInput \<Rightarrow> time \<Rightarrow> 'd QueryCache" where
  "applyRules s input ts =
    (let evt = rule_event input ts;
         addrs = rule_addresses evt;
         gid = (case contractTx evt of None \<Rightarrow> None | Some c \<Rightarrow> gameId c);
         s1 = invalidateBalances s addrs evt ts;
         s2 = (if contract_is evt ''prizePool''
               then invalidatePrefix s1 balances_root (Some evt) ts else s1);
         s3 = (if contract_is evt ''coinFlip''
               then invalidateCoinFlip s2 addrs gid evt ts else s2);
         s4 = (if contract_is evt ''achievementBadge''
               then invalidateAchievementBadge s3 addrs evt ts else s3)
     in s4)"

section \<open>Notions used in the properties\<close>

text \<open>
  \<^verbatim>\<open>a === b\<close> on scalars, and the words of the specification for a prefix: the leading
  segments of the key equal the prefix element-wise, the prefix being no longer than
  the key.
\<close>

definition strict_eq :: "segment \<Rightarrow> segment \<Rightarrow> bool" where
  "strict_eq a b = (a = b \<and> a \<noteq> SNumber NaN)"

definition leading_segments_equal :: "QueryKey \<Rightarrow> QueryKey \<Rightarrow> bool" where
  "leading_segments_equal k prefix =
    (length prefix \<le> length k \<and> (\<forall>i < length prefix. strict_eq (k ! i) (prefix ! i)))"

text \<open>
  The invariant of the \<^verbatim>\<open>Map\<close>: a slot name occurs once, and every entry sits in the
  slot of its own key. It holds for a new cache and every operation keeps it.
\<close>

definition slots_consistent :: "'d QueryCache \<Rightarrow> bool" where
  "slots_consistent s =
    (distinct (map fst (entries s))
     \<and> list_all (\<lambda>(slot, e). slot = keyToString (key e)) (entries s))"

text \<open>A run of \<open>invalidate\<close> over a list of keys, those that fail \<open>P\<close> being skipped.\<close>

definition invalidate_where :: "(QueryKey \<Rightarrow> bool) \<Rightarrow> 'd QueryCache \<Rightarrow> QueryKey list \<Rightarrow> CacheInvalidationEvent option \<Rightarrow> time \<Rightarrow> 'd QueryCache" where
  "invalidate_where P s ks evt ts = foldl (\<lambda>s' k. if P k then invalidate s' k evt ts else s') s ks"



section \<open>Example caches\<close>

text \<open>The caches of the test suite, with natural numbers as data.\<close>

definition rewards_key :: QueryKey where
  "rewards_key = rewards_byAddress ''GAAA''"

definition rewards_cache :: "nat QueryCache" where
  "rewards_cache =
    snd (set_entry (new_QueryCache None) rewards_key 1
      (Some \<lparr>staleTimeMs = 60000, refetchOnInvalidate = True\<rparr>) 0)"

definition failing_cache :: "nat QueryCache" where
  "failing_cache = registerFetcher rewards_cache rewards_key (\<lambda>t. Inl (Thrown ''boom''))"

definition throwing_cache :: "nat QueryCache" where
  "throwing_cache =
    registerFetcher (new_QueryCache None) (games_byId (GString ''1'')) (\<lambda>t. Inl (Thrown ''boom''))"

definition quiet_policy :: QueryPolicy where
  "quiet_policy = \<lparr>staleTimeMs = 60000, refetchOnInvalidate = False\<rparr>"

definition gaddr_cache :: "nat QueryCache" where
  "gaddr_cache =
    (let s1 = snd (set_entry (new_QueryCache None) (balances_account ''GADDR'') 1 (Some quiet_policy) 0);
         s2 = snd (set_entry s1 (games_recentByAddress ''GADDR'') 2 (Some quiet_policy) 0);
         s3 = snd (set_entry s2 (games_byId (GNumber (Finite 7))) 3 (Some quiet_policy) 0)
     in s3)"

definition coinFlip_input :: InvalidationRuleInput where
  "coinFlip_input =
    \<lparr>outcome = TxOk (Some ''abc''),
     event = \<lparr>at = 0, reason = tx_success,
       contractTx = Some \<lparr>contract = ''coinFlip'', tx_method = ''play'', txHash = None,
         addresses = Some [''GADDR''], gameId = Some (GNumber (Finite 7))\<rparr>,
       mutation = None\<rparr>\<rparr>"

definition prizePool_input :: InvalidationRuleInput where
  "prizePool_input =
    \<lparr>outcome = TxOk (Some ''abc''),
     event = \<lparr>at = 0, reason = tx_success,
       contractTx = Some \<lparr>contract = ''prizePool'', tx_method = ''deposit'', txHash = None,
         addresses = Some [''GOTHER''], gameId = None\<rparr>,
       mutation = None\<rparr>\<rparr>"

definition bounded_cache :: "nat QueryCache" where
  "bounded_cache =
    (let s1 = snd (set_entry (new_QueryCache (Some 2)) games_root 1 None 0);
         s2 = snd (set_entry s1 rewards_root 2 None 1)
     in s2)"

section \<open>Notions used in the properties of the key encoding\<close>









section \<open>Notions used in the properties of writes and eviction\<close>

text \<open>The first entry in the order in which \<^verbatim>\<open>enforceMaxEntries\<close> sorts: its first victim.\<close>

definition oldest :: "'d QueryCache \<Rightarrow> 'd CacheEntry" where
  "oldest s = hd (sort_key (\<lambda>e. updatedAt (meta e)) (map snd (entries s)))"

text \<open>
  When a write at \<open>ts\<close> is not evicted at once: there is no bound (absent, or 0), or
  the bound is positive, the store is within it and no stored entry was updated later
  than \<open>ts\<close>.
\<close>

definition bound_spares_write :: "'d QueryCache \<Rightarrow> time \<Rightarrow> bool" where
  "bound_spares_write s ts =
    (case maxEntries s of
       None \<Rightarrow> True
     | Some n \<Rightarrow>
        n = 0 \<or> (0 < n \<and> int (length (entries s)) \<le> n
                 \<and> list_all (\<lambda>(slot, e). updatedAt (meta e) \<le> ts) (entries s)))"

text \<open>A sequence of calls of \<^verbatim>\<open>set\<close>, each with the instant at which it runs.\<close>

record 'd set_call =
  call_key :: QueryKey
  call_data :: 'd
  call_policy :: "QueryPolicy option"
  call_time :: time

definition run_sets :: "'d QueryCache \<Rightarrow> 'd set_call list \<Rightarrow> 'd QueryCache" where
  "run_sets s calls =
    foldl (\<lambda>s' c. snd (set_entry s' (call_key c) (call_data c) (call_policy c) (call_time c)))
      s calls"

text \<open>The slots the calls touch, and the instant of the last call that wrote a slot.\<close>

definition touched :: "'d set_call list \<Rightarrow> string set" where
  "touched calls = (\<lambda>c. keyToString (call_key c)) ` set calls"

definition last_write :: "'d set_call list \<Rightarrow> string \<Rightarrow> time option" where
  "last_write calls sl =
    (let cs = filter (\<lambda>c. keyToString (call_key c) = sl) calls
     in if cs = [] then None else Some (call_time (last cs)))"

text \<open>
  The invariant of a bounded cache along a sequence of writes: the store holds as many
  slots as were touched, up to the bound; a stored entry carries the instant of the
  last write of its slot; a touched slot that is no longer stored was last written no
  later than any stored entry.
\<close>

definition lru_inv :: "int \<Rightarrow> 'd set_call list \<Rightarrow> 'd QueryCache \<Rightarrow> bool" where
  "lru_inv n calls s \<longleftrightarrow>
    slots_consistent s \<and> maxEntries s = Some n
    \<and> int (length (entries s)) = min n (int (card (touched calls)))
    \<and> (\<forall>(slot, e) \<in> set (entries s). last_write calls slot = Some (updatedAt (meta e)))
    \<and> (\<forall>sl \<in> touched calls. sl \<notin> fst ` set (entries s) \<longrightarrow>
          (\<forall>(slot, e) \<in> set (entries s). the (last_write calls sl) \<le> updatedAt (meta e)))"

definition lru_calls :: "nat set_call list" where
  "lru_calls =
    [\<lparr>call_key = games_root, call_data = 1, call_policy = None, call_time = 0\<rparr>,
     \<lparr>call_key = rewards_root, call_data = 2, call_policy = None, call_time = 1\<rparr>,
     \<lparr>call_key = games_root, call_data = 3, call_policy = None, call_time = 2\<rparr>,
     \<lparr>call_key = profile_root, call_data = 4, call_policy = None, call_time = 2\<rparr>]"

definition one_call :: "nat set_call list" where
  "one_call = [\<lparr>call_key = games_root, call_data = 1, call_policy = None, call_time = 0\<rparr>]"

section \<open>Properties of the key encoding\<close>

subsection \<open>Strings\<close>










subsection \<open>Integers\<close>














subsection \<open>Segments and keys\<close>









section \<open>Properties of the cache store\<close>

subsection \<open>What the operations do to the fields of the state\<close>

lemma entries_notify [simp]: "entries (notify s k e) = entries s"
  by (simp add: notify_def)

lemma fetchers_notify [simp]: "fetchers (notify s k e) = fetchers s"
  by (simp add: notify_def)

lemma inflight_notify [simp]: "inflight (notify s k e) = inflight s"
  by (simp add: notify_def)

lemma entries_start_refetch [simp]: "entries (start_refetch s k ts) = entries s"
  by (simp add: start_refetch_def split: option.splits)

lemma fetchers_start_refetch [simp]: "fetchers (start_refetch s k ts) = fetchers s"
  by (simp add: start_refetch_def split: option.splits)

lemma invalidatedAt_mark [simp]: "invalidatedAt (meta (mark_invalidated ts e)) = Some ts"
  by (simp add: mark_invalidated_def)

lemma data_mark [simp]: "data (mark_invalidated ts e) = data e"
  by (simp add: mark_invalidated_def)

lemma key_mark [simp]: "key (mark_invalidated ts e) = key e"
  by (simp add: mark_invalidated_def)

lemma policy_mark [simp]: "policy (mark_invalidated ts e) = policy e"
  by (simp add: mark_invalidated_def)

lemma mark_invalidated_idem [simp]:
  "mark_invalidated ts (mark_invalidated ts e) = mark_invalidated ts e"
  by (simp add: mark_invalidated_def)

lemma entries_invalidate:
  "entries (invalidate s k evt ts) =
    (case map_of (entries s) (keyToString k) of
       None \<Rightarrow> entries s
     | Some e \<Rightarrow> AList.update (keyToString k) (mark_invalidated ts e) (entries s))"
  by (simp add: invalidate_def Let_def split: option.splits)

lemma fetchers_invalidate [simp]: "fetchers (invalidate s k evt ts) = fetchers s"
  by (simp add: invalidate_def Let_def split: option.splits)

lemma map_fst_entries_invalidate [simp]:
  "map fst (entries (invalidate s k evt ts)) = map fst (entries s)"
  by (auto simp: entries_invalidate update_keys map_of_eq_None_iff split: option.splits)

lemma map_of_entries_invalidate:
  "map_of (entries (invalidate s k evt ts)) sl =
    (if sl = keyToString k then map_option (mark_invalidated ts) (map_of (entries s) sl)
     else map_of (entries s) sl)"
  by (simp add: entries_invalidate update_conv' split: option.splits)

lemma get_invalidate:
  "get (invalidate s k' evt ts) k =
    (if keyToString k = keyToString k' then map_option (mark_invalidated ts) (get s k)
     else get s k)"
  by (simp add: get_def map_of_entries_invalidate)

subsection \<open>The slot invariant\<close>

lemma slots_consistent_new: "slots_consistent (new_QueryCache opts)"
  by (simp add: slots_consistent_def new_QueryCache_def)

lemma list_all_update:
  "list_all P al \<Longrightarrow> P (sl, v) \<Longrightarrow> list_all P (AList.update sl v al)"
  by (induction al) auto

lemma list_all_delete:
  "list_all P al \<Longrightarrow> list_all P (AList.delete sl al)"
  by (induction al) auto

lemma slots_consistent_entries_update:
  assumes "slots_consistent s" and "sl = keyToString (key v)"
  shows "slots_consistent (s\<lparr>entries := AList.update sl v (entries s)\<rparr>)"
  using assms by (simp add: slots_consistent_def distinct_update list_all_update)

lemma slots_consistent_notify [simp]:
  "slots_consistent (notify s k e) = slots_consistent s"
  by (simp add: slots_consistent_def)

lemma slots_consistent_start_refetch [simp]:
  "slots_consistent (start_refetch s k ts) = slots_consistent s"
  by (simp add: slots_consistent_def)

lemma slot_of_stored:
  assumes "slots_consistent s" and "map_of (entries s) sl = Some e"
  shows "sl = keyToString (key e)"
  using assms by (auto simp: slots_consistent_def list_all_iff dest: map_of_SomeD)

lemma slots_consistent_invalidate:
  assumes "slots_consistent s"
  shows "slots_consistent (invalidate s k evt ts)"
proof (cases "map_of (entries s) (keyToString k)")
  case None
  with assms show ?thesis by (simp add: invalidate_def)
next
  case (Some e)
  from slot_of_stored [OF assms Some] have "keyToString k = keyToString (key (mark_invalidated ts e))"
    by simp
  from slots_consistent_entries_update [OF assms this] Some show ?thesis
    by (simp add: invalidate_def Let_def)
qed

subsection \<open>Runs of \<^verbatim>\<open>invalidate\<close>\<close>

lemma invalidate_where_Nil [simp]: "invalidate_where P s [] evt ts = s"
  by (simp add: invalidate_where_def)

lemma invalidate_where_Cons [simp]:
  "invalidate_where P s (k # ks) evt ts =
    invalidate_where P (if P k then invalidate s k evt ts else s) ks evt ts"
  by (simp add: invalidate_where_def)

lemma invalidate_where_append [simp]:
  "invalidate_where P s (ks @ ks') evt ts =
    invalidate_where P (invalidate_where P s ks evt ts) ks' evt ts"
  by (simp add: invalidate_where_def)

lemma map_fst_entries_invalidate_where [simp]:
  "map fst (entries (invalidate_where P s ks evt ts)) = map fst (entries s)"
  by (induction ks arbitrary: s) simp_all

lemma map_of_entries_invalidate_where:
  "map_of (entries (invalidate_where P s ks evt ts)) sl =
    (if \<exists>k \<in> set ks. P k \<and> keyToString k = sl
     then map_option (mark_invalidated ts) (map_of (entries s) sl)
     else map_of (entries s) sl)"
proof (induction ks arbitrary: s)
  case Nil
  show ?case by simp
next
  case (Cons k ks)
  show ?case
    by (auto simp: Cons.IH map_of_entries_invalidate option.map_comp comp_def
        intro!: option.map_cong)
qed

lemma get_invalidate_where:
  "get (invalidate_where P s ks evt ts) k0 =
    (if \<exists>k \<in> set ks. P k \<and> keyToString k = keyToString k0
     then map_option (mark_invalidated ts) (get s k0)
     else get s k0)"
  by (auto simp: get_def map_of_entries_invalidate_where)

lemma slots_consistent_invalidate_where:
  "slots_consistent s \<Longrightarrow> slots_consistent (invalidate_where P s ks evt ts)"
  by (induction ks arbitrary: s) (simp_all add: slots_consistent_invalidate)

lemma invalidatePrefix_alt:
  "invalidatePrefix s prefix evt ts =
    invalidate_where (\<lambda>k. hasPrefix k prefix) s (map (\<lambda>(slot, e). key e) (entries s)) evt ts"
  by (simp add: invalidatePrefix_def invalidate_where_def)

subsection \<open>\<^verbatim>\<open>set\<close> and \<^verbatim>\<open>enforceMaxEntries\<close>\<close>

lemma enforceMaxEntries_unbounded:
  "maxEntries s = None \<or> maxEntries s = Some 0 \<Longrightarrow> enforceMaxEntries s = s"
  by (auto simp: enforceMaxEntries_def)

lemma enforceMaxEntries_within:
  "maxEntries s = Some n \<Longrightarrow> int (length (entries s)) \<le> n \<Longrightarrow> enforceMaxEntries s = s"
  by (auto simp: enforceMaxEntries_def)

lemma enforceMaxEntries_one_over:
  assumes "maxEntries s = Some n" and "1 \<le> n" and "int (length (entries s)) = n + 1"
  shows "enforceMaxEntries s = s\<lparr>entries := AList.delete (keyToString (key (oldest s))) (entries s)\<rparr>"
proof -
  let ?all = "sort_key (\<lambda>e. updatedAt (meta e)) (map snd (entries s))"
  from assms have "entries s \<noteq> []"
    by auto
  then have "length ?all \<noteq> 0"
    by simp
  then have "?all \<noteq> []"
    by (simp only: length_0_conv not_False_eq_True)
  then have "take (Suc 0) ?all = [hd ?all]"
    by (cases ?all) simp_all
  with assms show ?thesis
    by (simp add: enforceMaxEntries_def Let_def oldest_def)
qed

lemma insort_key_snoc_ge:
  "f y \<le> f x \<Longrightarrow> insort_key f y (zs @ [x]) = insort_key f y zs @ [x]"
  by (induction zs) auto

lemma sort_key_snoc_max:
  "\<forall>y \<in> set xs. f y \<le> f x \<Longrightarrow> sort_key f (xs @ [x]) = sort_key f xs @ [x]"
  by (induction xs) (simp_all add: insort_key_snoc_ge)

lemma hd_sort_key_least:
  assumes "xs \<noteq> []"
  shows "hd (sort_key f xs) \<in> set xs \<and> (\<forall>y \<in> set xs. f (hd (sort_key f xs)) \<le> f y)"
proof -
  let ?l = "sort_key f xs"
  define l where "l = sort_key f xs"
  have len: "length l = length xs" and st: "set l = set xs" and so: "sorted (map f l)"
    by (simp_all add: l_def)
  from assms len obtain v vs where l: "l = v # vs"
    by (cases l) auto
  from so l have "\<forall>y \<in> set l. f v \<le> f y"
    by auto
  moreover from l have "v \<in> set l" by simp
  ultimately have "hd l \<in> set xs \<and> (\<forall>y \<in> set xs. f (hd l) \<le> f y)"
    unfolding st [symmetric] using l by simp
  then show ?thesis unfolding l_def .
qed

lemma update_absent:
  "sl \<notin> fst ` set al \<Longrightarrow> AList.update sl v al = al @ [(sl, v)]"
  by (induction al) auto

lemma length_update_present:
  "sl \<in> fst ` set al \<Longrightarrow> length (AList.update sl v al) = length al"
  by (induction al) auto

lemma length_update_le: "length (AList.update sl v al) \<le> Suc (length al)"
  by (induction al) auto

lemma new_entry_fields [simp]:
  "key (new_entry s k d pol ts) = k"
  "data (new_entry s k d pol ts) = d"
  "policy (new_entry s k d pol ts) = effectivePolicy k pol"
  "updatedAt (meta (new_entry s k d pol ts)) = ts"
  "staleAt (meta (new_entry s k d pol ts)) = ts + staleTimeMs (effectivePolicy k pol)"
  by (simp_all add: new_entry_def Let_def)

lemma fst_set_entry [simp]: "fst (set_entry s k d pol ts) = new_entry s k d pol ts"
  by (simp add: set_entry_def Let_def)

lemma maxEntries_set_entry [simp]:
  "maxEntries (snd (set_entry s k d pol ts)) = maxEntries s"
  by (simp add: set_entry_def Let_def notify_def enforceMaxEntries_def split: option.splits)

lemma entries_set_entry_plain:
  assumes "maxEntries s = None \<or> maxEntries s = Some 0
    \<or> (\<exists>n. maxEntries s = Some n \<and> int (length (AList.update (keyToString k) (new_entry s k d pol ts) (entries s))) \<le> n)"
  shows "entries (snd (set_entry s k d pol ts)) =
    AList.update (keyToString k) (new_entry s k d pol ts) (entries s)"
  using assms
  by (auto simp: set_entry_def Let_def enforceMaxEntries_unbounded enforceMaxEntries_within)

lemma entries_set_entry_evicting:
  assumes wf: "slots_consistent s"
    and bound: "maxEntries s = Some n" "1 \<le> n" "int (length (entries s)) = n"
    and new: "keyToString k \<notin> fst ` set (entries s)"
    and clock: "\<forall>(slot, e) \<in> set (entries s). updatedAt (meta e) \<le> ts"
  shows "entries (snd (set_entry s k d pol ts)) =
      AList.delete (keyToString (key (oldest s))) (entries s) @ [(keyToString k, new_entry s k d pol ts)]
    \<and> oldest s \<in> snd ` set (entries s)
    \<and> (\<forall>(slot, e) \<in> set (entries s). updatedAt (meta (oldest s)) \<le> updatedAt (meta e))"
proof -
  let ?f = "\<lambda>e::'a CacheEntry. updatedAt (meta e)"
  let ?entry = "new_entry s k d pol ts"
  let ?sl = "keyToString k"
  let ?s1 = "s\<lparr>entries := AList.update ?sl ?entry (entries s)\<rparr>"
  from bound have ne: "map snd (entries s) \<noteq> []" by auto
  from hd_sort_key_least [OF ne, of ?f]
  have old: "oldest s \<in> set (map snd (entries s))"
    and least: "\<forall>y \<in> set (map snd (entries s)). ?f (oldest s) \<le> ?f y"
    by (simp_all add: oldest_def)
  from old have A: "oldest s \<in> snd ` set (entries s)" by simp
  from least have B: "\<forall>(slot, e) \<in> set (entries s). updatedAt (meta (oldest s)) \<le> updatedAt (meta e)"
    by force
  have e1: "entries ?s1 = entries s @ [(?sl, ?entry)]"
    using new by (simp add: update_absent)
  from clock have "\<forall>y \<in> set (map snd (entries s)). ?f y \<le> ?f ?entry"
    by force
  then have "sort_key ?f (map snd (entries ?s1)) = sort_key ?f (map snd (entries s)) @ [?entry]"
    unfolding e1 by (simp add: sort_key_snoc_max del: sort_key_simps)
  moreover have "sort_key ?f (map snd (entries s)) \<noteq> []"
    using ne by (metis length_0_conv length_sort)
  ultimately have o1: "oldest ?s1 = oldest s"
    by (simp add: oldest_def del: sort_key_simps)
  from old obtain slv where slv: "(slv, oldest s) \<in> set (entries s)" by auto
  with wf have "slv = keyToString (key (oldest s))"
    by (auto simp: slots_consistent_def list_all_iff)
  with slv new have neq: "keyToString (key (oldest s)) \<noteq> ?sl"
    by force
  have "enforceMaxEntries ?s1 = ?s1\<lparr>entries := AList.delete (keyToString (key (oldest ?s1))) (entries ?s1)\<rparr>"
    using bound e1 by (intro enforceMaxEntries_one_over [where n = n]) simp_all
  then have "entries (enforceMaxEntries ?s1) =
      AList.delete (keyToString (key (oldest s))) (entries s) @ [(?sl, ?entry)]"
    using neq by (simp add: o1 e1 AList.delete_eq)
  then have "entries (snd (set_entry s k d pol ts)) =
      AList.delete (keyToString (key (oldest s))) (entries s) @ [(?sl, ?entry)]"
    by (simp add: set_entry_def Let_def)
  with A B show ?thesis by blast
qed

lemma get_set_entry:
  assumes "slots_consistent s" and "bound_spares_write s ts"
  shows "get (snd (set_entry s k d pol ts)) k = Some (new_entry s k d pol ts)"
proof -
  let ?entry = "new_entry s k d pol ts"
  let ?sl = "keyToString k"
  let ?up = "AList.update ?sl ?entry (entries s)"
  consider (plain) "maxEntries s = None \<or> maxEntries s = Some 0
      \<or> (\<exists>n. maxEntries s = Some n \<and> int (length ?up) \<le> n)"
    | (evict) n where "maxEntries s = Some n" "1 \<le> n" "int (length (entries s)) = n"
      "?sl \<notin> fst ` set (entries s)"
      "\<forall>(slot, e) \<in> set (entries s). updatedAt (meta e) \<le> ts"
  proof (cases "maxEntries s")
    case None
    then show ?thesis using plain by simp
  next
    case (Some n)
    show ?thesis
    proof (cases "n = 0 \<or> int (length ?up) \<le> n")
      case True
      with Some show ?thesis using plain by auto
    next
      case False
      with Some assms(2) have n: "0 < n" "int (length (entries s)) \<le> n"
        and c: "\<forall>(slot, e) \<in> set (entries s). updatedAt (meta e) \<le> ts"
        by (auto simp: bound_spares_write_def list_all_iff)
      from False have over: "n < int (length ?up)" by simp
      have absent: "?sl \<notin> fst ` set (entries s)"
      proof
        assume "?sl \<in> fst ` set (entries s)"
        then have "length ?up = length (entries s)" by (rule length_update_present)
        with over n show False by simp
      qed
      from over n length_update_le [of ?sl ?entry "entries s"]
      have "int (length (entries s)) = n" by simp
      with Some n absent c show ?thesis using evict [of n] by simp
    qed
  qed
  then show ?thesis
  proof cases
    case plain
    then show ?thesis
      by (simp add: get_def entries_set_entry_plain update_conv')
  next
    case (evict n)
    from entries_set_entry_evicting [OF assms(1) evict, of d pol]
    have "entries (snd (set_entry s k d pol ts)) =
      AList.delete (keyToString (key (oldest s))) (entries s) @ [(?sl, ?entry)]" by blast
    moreover have "map_of (AList.delete (keyToString (key (oldest s))) (entries s)) ?sl = None"
      using evict(4) by (simp add: delete_conv' map_of_eq_None_iff)
    ultimately show ?thesis
      by (simp add: get_def map_of_append map_add_def)
  qed
qed

text \<open>
  C1. The claim: \<^verbatim>\<open>set(key, data, policy)\<close> writes an entry with \<open>updatedAt = now\<close> and
  \<open>staleAt = now + policy.staleTimeMs\<close> and clears \<open>invalidatedAt\<close>, so that
  immediately after the call \<^verbatim>\<open>isStale(key)\<close> is false and \<^verbatim>\<open>get(key).data\<close> is the data.
  Three calls at which it fails. The entry written over an invalidated one carries
  the old \<open>invalidatedAt\<close> (\<^verbatim>\<open>invalidatedAt: existing?.meta.invalidatedAt\<close>) and is
  stale. With \<open>staleTimeMs = 0\<close> the entry is stale at the instant of the write
  (\<^verbatim>\<open>ts >= entry.meta.staleAt\<close>). With the bound \<open>maxEntries = -1\<close> the entry is evicted
  by the write itself and \<^verbatim>\<open>get\<close> returns none.
\<close>

theorem set_entry_not_always_fresh:
  "get (invalidate rewards_cache rewards_key None 5) rewards_key \<noteq> None
   \<and> invalidatedAt (meta (fst (set_entry (invalidate rewards_cache rewards_key None 5) rewards_key 2 None 6)))
     = Some 5
   \<and> get (snd (set_entry (invalidate rewards_cache rewards_key None 5) rewards_key 2 None 6)) rewards_key
     = Some (fst (set_entry (invalidate rewards_cache rewards_key None 5) rewards_key 2 None 6))
   \<and> isStale (snd (set_entry (invalidate rewards_cache rewards_key None 5) rewards_key 2 None 6)) rewards_key 6
   \<and> isStale (snd (set_entry (new_QueryCache None) rewards_key (1::nat)
        (Some \<lparr>staleTimeMs = 0, refetchOnInvalidate = False\<rparr>) 0)) rewards_key 0
   \<and> get (snd (set_entry (new_QueryCache (Some (- 1))) rewards_key (1::nat) None 0)) rewards_key = None"
  by code_simp

text \<open>
  C1, amended. For every key, data and policy, \<^verbatim>\<open>set(key, data, policy)\<close> writes and
  returns an entry with that key and data, \<open>updatedAt = now\<close> and
  \<open>staleAt = now + policy.staleTimeMs\<close>, the policy defaulting to the registered policy
  of the namespace, or to 30s/refetch-enabled for an unknown namespace; \<^verbatim>\<open>get(key)\<close>
  returns that entry. When the key had no entry, or an entry that was not invalidated,
  \<open>invalidatedAt\<close> is unset in the written entry and \<^verbatim>\<open>isStale(key)\<close> is false at every
  instant before \<open>staleAt\<close>: immediately after the call when \<open>staleTimeMs > 0\<close>.
  This is for a store that keeps its slot invariant and a write that the bound does
  not evict at once (\<open>bound_spares_write\<close>), and, when no policy is passed, for a
  namespace that is not a member name of \<^verbatim>\<open>Object.prototype\<close>.
\<close>

theorem set_entry_writes:
  assumes "slots_consistent s" and "bound_spares_write s ts"
    and "pol = None \<longrightarrow> namespace_of k \<notin> set inherited_names"
  shows "key (fst (set_entry s k d pol ts)) = k
    \<and> data (fst (set_entry s k d pol ts)) = d
    \<and> policy (fst (set_entry s k d pol ts)) =
        (case pol of
           Some p \<Rightarrow> p
         | None \<Rightarrow> (case QueryPolicies (namespace_of k) of
                      Some p \<Rightarrow> p
                    | None \<Rightarrow> \<lparr>staleTimeMs = 30000, refetchOnInvalidate = True\<rparr>))
    \<and> updatedAt (meta (fst (set_entry s k d pol ts))) = ts
    \<and> staleAt (meta (fst (set_entry s k d pol ts)))
        = ts + staleTimeMs (policy (fst (set_entry s k d pol ts)))
    \<and> get (snd (set_entry s k d pol ts)) k = Some (fst (set_entry s k d pol ts))
    \<and> ((\<forall>e. get s k = Some e \<longrightarrow> invalidatedAt (meta e) = None) \<longrightarrow>
          invalidatedAt (meta (fst (set_entry s k d pol ts))) = None
          \<and> (\<forall>t. t < ts + staleTimeMs (policy (fst (set_entry s k d pol ts)))
                \<longrightarrow> \<not> isStale (snd (set_entry s k d pol ts)) k t))"
proof -
  have g: "get (snd (set_entry s k d pol ts)) k = Some (new_entry s k d pol ts)"
    using assms(1,2) by (rule get_set_entry)
  have i: "invalidatedAt (meta (new_entry s k d pol ts)) = None"
    if "\<forall>e. get s k = Some e \<longrightarrow> invalidatedAt (meta e) = None"
    using that by (simp add: new_entry_def Let_def split: option.splits)
  show ?thesis
    using g i by (simp add: isStale_def effectivePolicy_def fallback_policy_def
        split: option.splits)
qed

theorem set_entry_writes_witness:
  "slots_consistent bounded_cache \<and> bound_spares_write bounded_cache 2
   \<and> length (entries bounded_cache) = 2
   \<and> map_option data (get (snd (set_entry bounded_cache profile_root 9 None 2)) profile_root) = Some 9
   \<and> policy (fst (set_entry bounded_cache profile_root 9 None 2))
       = \<lparr>staleTimeMs = 60000, refetchOnInvalidate = True\<rparr>
   \<and> \<not> isStale (snd (set_entry bounded_cache profile_root 9 None 2)) profile_root 2"
proof -
  have wf: "slots_consistent bounded_cache"
    by code_simp
  have b: "bound_spares_write bounded_cache 2"
    by code_simp
  have l: "length (entries bounded_cache) = 2"
    by code_simp
  have n: "(None :: QueryPolicy option) = None \<longrightarrow> namespace_of profile_root \<notin> set inherited_names"
    by code_simp
  have absent: "get bounded_cache profile_root = None"
    by code_simp
  have p: "QueryPolicies (namespace_of profile_root) = Some \<lparr>staleTimeMs = 60000, refetchOnInvalidate = True\<rparr>"
    by code_simp
  from set_entry_writes [OF wf b n, of 9] wf b l absent p
  show ?thesis by simp
qed

subsection \<open>Eviction along a sequence of writes\<close>

lemma last_write_snoc:
  "last_write (calls @ [c]) sl =
    (if keyToString (call_key c) = sl then Some (call_time c) else last_write calls sl)"
  by (simp add: last_write_def Let_def)

lemma last_write_Some_time:
  assumes "last_write calls sl = Some t"
  shows "\<exists>c \<in> set calls. call_time c = t"
proof -
  let ?cs = "filter (\<lambda>c. keyToString (call_key c) = sl) calls"
  from assms have ne: "?cs \<noteq> []" and t: "t = call_time (last ?cs)"
    by (auto simp: last_write_def Let_def split: if_splits)
  from ne have "last ?cs \<in> set ?cs" by (rule last_in_set)
  then have "last ?cs \<in> set calls" by simp
  with t show ?thesis by blast
qed

lemma last_write_None_iff: "last_write calls sl = None \<longleftrightarrow> sl \<notin> touched calls"
  by (auto simp: last_write_def Let_def touched_def filter_empty_conv)

lemma touched_snoc: "touched (calls @ [c]) = insert (keyToString (call_key c)) (touched calls)"
  by (auto simp: touched_def)

lemma set_update_distinct:
  "distinct (map fst al) \<Longrightarrow>
    set (AList.update sl v al) = insert (sl, v) {p \<in> set al. fst p \<noteq> sl}"
  by (induction al) (auto simp: rev_image_eqI)

lemma length_delete_distinct:
  "distinct (map fst al) \<Longrightarrow> sl \<in> fst ` set al \<Longrightarrow> Suc (length (AList.delete sl al)) = length al"
  by (induction al) (auto simp: rev_image_eqI)

lemma lru_inv_step:
  fixes c :: "'d set_call" and s :: "'d QueryCache"
  assumes n: "0 < n" and inv: "lru_inv n calls s"
    and mono: "\<forall>c' \<in> set calls. call_time c' \<le> call_time c"
  shows "lru_inv n (calls @ [c])
    (snd (set_entry s (call_key c) (call_data c) (call_policy c) (call_time c)))"
proof -
  define k d pol t where kd: "k = call_key c" "d = call_data c" "pol = call_policy c" "t = call_time c"
  define sl where "sl = keyToString k"
  define entry where "entry = new_entry s k d pol t"
  define s' where "s' = snd (set_entry s k d pol t)"
  define es where "es = entries s"
  from inv have wf: "slots_consistent s" and mx: "maxEntries s = Some n"
    and len: "int (length es) = min n (int (card (touched calls)))"
    and lw: "\<And>slot e. (slot, e) \<in> set es \<Longrightarrow> last_write calls slot = Some (updatedAt (meta e))"
    and gone: "\<And>sl0 slot e. sl0 \<in> touched calls \<Longrightarrow> sl0 \<notin> fst ` set es \<Longrightarrow> (slot, e) \<in> set es
        \<Longrightarrow> the (last_write calls sl0) \<le> updatedAt (meta e)"
    by (auto simp: lru_inv_def es_def)
  from wf have dist: "distinct (map fst es)"
    and own: "\<And>slot e. (slot, e) \<in> set es \<Longrightarrow> slot = keyToString (key e)"
    by (auto simp: slots_consistent_def list_all_iff es_def)
  have lw_le: "u \<le> t" if "last_write calls sl0 = Some u" for sl0 u
    using last_write_Some_time [OF that] mono by (auto simp: kd)
  have clock: "\<forall>(slot, e) \<in> set es. updatedAt (meta e) \<le> t"
    using lw lw_le by blast
  have stored_touched: "fst ` set es \<subseteq> touched calls"
  proof
    fix x assume "x \<in> fst ` set es"
    then obtain e where "(x, e) \<in> set es" by auto
    from lw [OF this] have "last_write calls x \<noteq> None" by simp
    then show "x \<in> touched calls" by (simp add: last_write_None_iff)
  qed
  have tch: "touched (calls @ [c]) = insert sl (touched calls)"
    by (simp add: touched_snoc sl_def kd)
  have lw': "last_write (calls @ [c]) sl0 = (if sl0 = sl then Some t else last_write calls sl0)" for sl0
    by (auto simp: last_write_snoc sl_def kd)
  have mx': "maxEntries s' = Some n"
    by (simp add: s'_def mx)
  have card_stored: "card (fst ` set es) = length es"
    using dist distinct_card [of "map fst es"] by simp
  have fin: "finite (touched calls)"
    by (simp add: touched_def)
  have entry_k: "key entry = k" and entry_t: "updatedAt (meta entry) = t"
    by (simp_all add: entry_def)
  from len have le_n: "int (length es) \<le> n" by simp
  consider (present) "sl \<in> fst ` set es"
    | (room) "sl \<notin> fst ` set es" "int (length es) < n"
    | (full) "sl \<notin> fst ` set es" "int (length es) = n"
    using le_n by fastforce
  then have "slots_consistent s' \<and> (sl, entry) \<in> set (entries s')
    \<and> int (length (entries s')) = min n (int (card (insert sl (touched calls))))
    \<and> (\<forall>slot e. (slot, e) \<in> set (entries s') \<longrightarrow> (slot, e) = (sl, entry) \<or> ((slot, e) \<in> set es \<and> slot \<noteq> sl))
    \<and> (\<forall>sl0. sl0 \<in> touched calls \<longrightarrow> sl0 \<noteq> sl \<longrightarrow> sl0 \<notin> fst ` set (entries s') \<longrightarrow> sl0 \<in> fst ` set es \<longrightarrow>
          (\<exists>v. (sl0, v) \<in> set es \<and> (\<forall>slot e. (slot, e) \<in> set es \<longrightarrow> updatedAt (meta v) \<le> updatedAt (meta e))))"
  proof cases
    case present
    then have l: "length (AList.update sl entry es) = length es"
      by (rule length_update_present)
    have es': "entries s' = AList.update sl entry es"
      unfolding s'_def es_def sl_def entry_def
      using mx l le_n by (intro entries_set_entry_plain) (simp add: es_def sl_def entry_def)
    from present stored_touched have "insert sl (touched calls) = touched calls"
      by auto
    moreover have "slots_consistent s'"
      using wf dist own entry_k
      by (simp add: slots_consistent_def es' distinct_update list_all_update es_def [symmetric] sl_def)
    moreover have "fst ` set (entries s') = fst ` set es"
      using present by (auto simp: es' dom_update)
    ultimately show ?thesis
      using len l by (auto simp: es' set_update_distinct [OF dist])
  next
    case room
    then have up: "AList.update sl entry es = es @ [(sl, entry)]"
      by (simp add: update_absent)
    have es': "entries s' = es @ [(sl, entry)]"
      unfolding s'_def es_def sl_def entry_def
      using mx room up by (subst entries_set_entry_plain) (simp_all add: es_def sl_def entry_def)
    from room len have "int (card (touched calls)) = int (length es)"
      by (simp add: min_def split: if_splits)
    with card_stored have "card (fst ` set es) = card (touched calls)"
      by simp
    with stored_touched fin have "fst ` set es = touched calls"
      by (simp add: card_subset_eq)
    with room have "sl \<notin> touched calls" by simp
    with fin have "card (insert sl (touched calls)) = Suc (card (touched calls))"
      by simp
    moreover have "slots_consistent s'"
      using wf dist own entry_k room
      by (auto simp: slots_consistent_def es' list_all_iff es_def [symmetric] sl_def)
    moreover from room(1) have "\<And>b. (sl, b) \<notin> set es"
      by force
    ultimately show ?thesis
      using len room by (auto simp: es')
  next
    case full
    have "entries (snd (set_entry s k d pol t)) =
        AList.delete (keyToString (key (oldest s))) (entries s) @ [(keyToString k, new_entry s k d pol t)]
      \<and> oldest s \<in> snd ` set (entries s)
      \<and> (\<forall>(slot, e) \<in> set (entries s). updatedAt (meta (oldest s)) \<le> updatedAt (meta e))"
      using wf mx n full clock
      by (intro entries_set_entry_evicting [where n = n]) (simp_all add: es_def sl_def)
    then have es': "entries s' = AList.delete (keyToString (key (oldest s))) es @ [(sl, entry)]"
      and old: "oldest s \<in> snd ` set es"
      and least0: "\<forall>(slot, e) \<in> set es. updatedAt (meta (oldest s)) \<le> updatedAt (meta e)"
      by (simp_all add: es_def sl_def entry_def s'_def)
    from least0 have least: "\<forall>slot e. (slot, e) \<in> set es \<longrightarrow> updatedAt (meta (oldest s)) \<le> updatedAt (meta e)"
      by auto
    define slv where "slv = keyToString (key (oldest s))"
    from old own have v: "(slv, oldest s) \<in> set es"
      by (auto simp: slv_def)
    then have vin: "slv \<in> fst ` set es" by force
    from length_delete_distinct [OF dist vin] full
    have l': "int (length (entries s')) = n"
      by (simp add: es' slv_def)
    from full len have "n \<le> int (card (touched calls))"
      by (simp add: min_def split: if_splits)
    moreover have "card (touched calls) \<le> card (insert sl (touched calls))"
      using fin by (simp add: card_insert_le)
    ultimately have c': "min n (int (card (insert sl (touched calls)))) = n"
      by simp
    have wf': "slots_consistent s'"
    proof -
      let ?del = "AList.delete (keyToString (key (oldest s))) es"
      have "distinct (map fst ?del)"
        using dist by (rule distinct_delete)
      moreover have "sl \<notin> fst ` set ?del"
        using full(1) dom_delete_subset [of "keyToString (key (oldest s))" es] by blast
      moreover have "list_all (\<lambda>(slot, e). slot = keyToString (key e)) ?del"
        using wf by (simp add: slots_consistent_def list_all_delete es_def)
      ultimately show ?thesis
        by (simp add: slots_consistent_def es' entry_k sl_def)
    qed
    have set_del: "set (AList.delete slv es) = {p \<in> set es. fst p \<noteq> slv}"
      by (auto simp: AList.delete_eq)
    from full(1) have absent: "\<And>b. (sl, b) \<notin> set es"
      by force
    have set': "set (entries s') = insert (sl, entry) {p \<in> set es. fst p \<noteq> slv}"
      by (simp add: es' slv_def [symmetric] set_del)
    have m: "\<forall>slot e. (slot, e) \<in> set (entries s') \<longrightarrow> (slot, e) = (sl, entry) \<or> ((slot, e) \<in> set es \<and> slot \<noteq> sl)"
      unfolding set' using absent by auto
    have "\<exists>v. (sl0, v) \<in> set es \<and> (\<forall>slot e. (slot, e) \<in> set es \<longrightarrow> updatedAt (meta v) \<le> updatedAt (meta e))"
      if "sl0 \<notin> fst ` set (entries s')" "sl0 \<in> fst ` set es" for sl0
    proof -
      from that(2) obtain b where b: "(sl0, b) \<in> set es" by auto
      have "sl0 = slv"
      proof (rule ccontr)
        assume "sl0 \<noteq> slv"
        with b have "(sl0, b) \<in> set (entries s')" by (simp add: set')
        then have "sl0 \<in> fst ` set (entries s')" by force
        with that(1) show False by simp
      qed
      with v least show ?thesis by blast
    qed
    moreover have "(sl, entry) \<in> set (entries s')"
      by (simp add: set')
    ultimately show ?thesis
      using l' c' wf' m by simp
  qed
  note post = this
  from post have wf': "slots_consistent s'"
    by (elim conjE)
  from post have sl_in: "(sl, entry) \<in> set (entries s')"
    by (elim conjE)
  from post have len': "int (length (entries s')) = min n (int (card (insert sl (touched calls))))"
    by (elim conjE)
  from post have mem0: "\<forall>slot e. (slot, e) \<in> set (entries s') \<longrightarrow> (slot, e) = (sl, entry) \<or> ((slot, e) \<in> set es \<and> slot \<noteq> sl)"
    by (elim conjE)
  from post have evicted0: "\<forall>sl0. sl0 \<in> touched calls \<longrightarrow> sl0 \<noteq> sl \<longrightarrow> sl0 \<notin> fst ` set (entries s') \<longrightarrow> sl0 \<in> fst ` set es \<longrightarrow>
          (\<exists>v. (sl0, v) \<in> set es \<and> (\<forall>slot e. (slot, e) \<in> set es \<longrightarrow> updatedAt (meta v) \<le> updatedAt (meta e)))"
    by (elim conjE)
  from mem0 have mem: "(slot, e) = (sl, entry) \<or> ((slot, e) \<in> set es \<and> slot \<noteq> sl)"
    if "(slot, e) \<in> set (entries s')" for slot e
    using that by blast
  from evicted0 have evicted:
    "\<exists>v. (sl0, v) \<in> set es \<and> (\<forall>slot e. (slot, e) \<in> set es \<longrightarrow> updatedAt (meta v) \<le> updatedAt (meta e))"
    if "sl0 \<in> touched calls" "sl0 \<noteq> sl" "sl0 \<notin> fst ` set (entries s')" "sl0 \<in> fst ` set es" for sl0
    using that by blast
  have d': "last_write (calls @ [c]) slot = Some (updatedAt (meta e))"
    if "(slot, e) \<in> set (entries s')" for slot e
    using mem [OF that] lw by (auto simp: lw' entry_t)
  from sl_in have sl_stored: "sl \<in> fst ` set (entries s')"
    by force
  have e': "the (last_write (calls @ [c]) sl0) \<le> updatedAt (meta e)"
    if sl0: "sl0 \<in> insert sl (touched calls)" "sl0 \<notin> fst ` set (entries s')"
      and e: "(slot, e) \<in> set (entries s')" for sl0 slot e
  proof -
    from sl0 sl_stored have neq: "sl0 \<noteq> sl" and t0: "sl0 \<in> touched calls"
      by auto
    then obtain u where u: "last_write calls sl0 = Some u"
      using last_write_None_iff [of calls sl0] by auto
    have "u \<le> updatedAt (meta e)"
    proof (cases "(slot, e) = (sl, entry)")
      case True
      with lw_le [OF u] show ?thesis by (simp add: entry_t)
    next
      case False
      with mem [OF e] have old: "(slot, e) \<in> set es" by blast
      show ?thesis
      proof (cases "sl0 \<in> fst ` set es")
        case False
        from gone [OF t0 False old] u show ?thesis by simp
      next
        case True
        from evicted [OF t0 neq sl0(2) True] obtain v where v: "(sl0, v) \<in> set es"
          and least: "\<forall>slot e. (slot, e) \<in> set es \<longrightarrow> updatedAt (meta v) \<le> updatedAt (meta e)"
          by blast
        from lw [OF v] u have "u = updatedAt (meta v)" by simp
        with least old show ?thesis by auto
      qed
    qed
    with u neq show ?thesis by (simp add: lw')
  qed
  have r: "lru_inv n (calls @ [c]) s'"
    unfolding lru_inv_def tch
  proof (intro conjI ballI impI)
    show "slots_consistent s'" by (rule wf')
    show "maxEntries s' = Some n" by (rule mx')
    show "int (length (entries s')) = min n (int (card (insert sl (touched calls))))" by (rule len')
  next
    fix p assume p: "p \<in> set (entries s')"
    obtain slot e where pe: "p = (slot, e)" by (cases p)
    with p d' [of slot e]
    show "case p of (slot, e) \<Rightarrow> last_write (calls @ [c]) slot = Some (updatedAt (meta e))"
      by simp
  next
    fix sl0 p
    assume a: "sl0 \<in> insert sl (touched calls)" "sl0 \<notin> fst ` set (entries s')"
      and p: "p \<in> set (entries s')"
    obtain slot e where pe: "p = (slot, e)" by (cases p)
    with p a e' [of sl0 slot e]
    show "case p of (slot, e) \<Rightarrow> the (last_write (calls @ [c]) sl0) \<le> updatedAt (meta e)"
      by simp
  qed
  then show ?thesis
    by (simp only: s'_def kd)
qed

lemma run_sets_snoc:
  "run_sets s (calls @ [c]) =
    snd (set_entry (run_sets s calls) (call_key c) (call_data c) (call_policy c) (call_time c))"
  by (simp add: run_sets_def)

lemma lru_inv_run:
  assumes "0 < n" and "sorted (map call_time calls)"
  shows "lru_inv n calls (run_sets (new_QueryCache (Some n)) calls)"
  using assms(2)
proof (induction calls rule: rev_induct)
  case Nil
  from assms(1) show ?case
    by (simp add: lru_inv_def run_sets_def slots_consistent_new touched_def)
      (simp add: new_QueryCache_def)
next
  case (snoc c calls)
  from snoc.prems have s: "sorted (map call_time calls)"
    and m: "\<forall>c' \<in> set calls. call_time c' \<le> call_time c"
    by (auto simp: sorted_append)
  from lru_inv_step [OF assms(1) snoc.IH [OF s] m] show ?case
    by (simp add: run_sets_snoc)
qed

text \<open>
  C5. The claim: with the bound \<open>maxEntries = N\<close>, after any sequence of calls of
  \<^verbatim>\<open>set\<close> that touch more than \<open>N\<close> distinct keys the store holds exactly \<open>N\<close>
  entries, those with the greatest \<open>updatedAt\<close>. \<^verbatim>\<open>enforceMaxEntries\<close> returns at once
  when \<^verbatim>\<open>!this.maxEntries\<close>, which is the case for \<open>N = 0\<close>: one call touches more than 0
  keys and leaves one entry in the store.
\<close>

theorem zero_bound_is_no_bound:
  "card (touched one_call) = 1
   \<and> length (entries (run_sets (new_QueryCache (Some 0)) one_call)) = 1"
  by code_simp

text \<open>
  C5, amended. With the bound \<open>maxEntries = N\<close> for a positive \<open>N\<close>, on a cache that
  starts empty, after any sequence of calls of \<^verbatim>\<open>set\<close> whose instants do not decrease
  and that touch more than \<open>N\<close> distinct slots, the store holds exactly \<open>N\<close> entries
  in \<open>N\<close> distinct slots; each stored entry sits in the slot of its key and its
  \<open>updatedAt\<close> is the instant of the last write of that key; and every touched key
  that is not stored was last written no later than any stored entry was updated.
\<close>

theorem bounded_cache_keeps_latest:
  assumes "0 < n" and "sorted (map call_time calls)"
    and "n < int (card (touched calls))"
  shows "int (length (entries (run_sets (new_QueryCache (Some n)) calls))) = n
    \<and> distinct (map fst (entries (run_sets (new_QueryCache (Some n)) calls)))
    \<and> (\<forall>(slot, e) \<in> set (entries (run_sets (new_QueryCache (Some n)) calls)).
          slot = keyToString (key e) \<and> last_write calls slot = Some (updatedAt (meta e)))
    \<and> (\<forall>sl \<in> touched calls.
          sl \<notin> fst ` set (entries (run_sets (new_QueryCache (Some n)) calls)) \<longrightarrow>
          (\<forall>(slot, e) \<in> set (entries (run_sets (new_QueryCache (Some n)) calls)).
             the (last_write calls sl) \<le> updatedAt (meta e)))"
proof -
  let ?s = "run_sets (new_QueryCache (Some n)) calls"
  from lru_inv_run [OF assms(1,2)] have inv: "lru_inv n calls ?s" .
  then have wf: "slots_consistent ?s"
    and len: "int (length (entries ?s)) = min n (int (card (touched calls)))"
    and lw: "\<forall>(slot, e) \<in> set (entries ?s). last_write calls slot = Some (updatedAt (meta e))"
    and gone: "\<forall>sl \<in> touched calls. sl \<notin> fst ` set (entries ?s) \<longrightarrow>
          (\<forall>(slot, e) \<in> set (entries ?s). the (last_write calls sl) \<le> updatedAt (meta e))"
    by (simp_all add: lru_inv_def)
  from len assms(3) have "int (length (entries ?s)) = n"
    by simp
  moreover from wf have "distinct (map fst (entries ?s))"
    and "\<forall>(slot, e) \<in> set (entries ?s). slot = keyToString (key e)"
    by (simp_all add: slots_consistent_def list_all_iff)
  ultimately show ?thesis
    using lw gone by (simp add: case_prod_beta)
qed

theorem bounded_cache_keeps_latest_witness:
  "sorted (map call_time lru_calls) \<and> 2 < int (card (touched lru_calls))
   \<and> int (length (entries (run_sets (new_QueryCache (Some 2)) lru_calls))) = 2
   \<and> map (\<lambda>(slot, e). (key e, updatedAt (meta e))) (entries (run_sets (new_QueryCache (Some 2)) lru_calls))
       = [(games_root, 2), (profile_root, 2)]
   \<and> last_write lru_calls (keyToString rewards_root) = Some 1"
proof -
  have s: "sorted (map call_time lru_calls)"
    by code_simp
  have c: "2 < int (card (touched lru_calls))"
    by code_simp
  have r: "map (\<lambda>(slot, e). (key e, updatedAt (meta e))) (entries (run_sets (new_QueryCache (Some 2)) lru_calls))
       = [(games_root, 2), (profile_root, 2)]"
    by code_simp
  have l: "last_write lru_calls (keyToString rewards_root) = Some 1"
    by code_simp
  from bounded_cache_keeps_latest [OF _ s c] s c r l show ?thesis
    by simp
qed

subsection \<open>\<^verbatim>\<open>invalidate\<close>\<close>

text \<open>
  C7. For every key, \<^verbatim>\<open>invalidate(key, event?)\<close> leaves the whole state of the store as
  it is when the key has no stored entry. When an entry exists, the call sets
  \<open>invalidatedAt = now\<close> in it and changes nothing else of the entry: a following
  \<^verbatim>\<open>get(key)\<close> returns the previous data, and \<^verbatim>\<open>isStale(key)\<close> is true at every instant.
\<close>

theorem invalidate_marks_entry:
  "(get s k = None \<longrightarrow> invalidate s k evt ts = s) \<and>
   (\<forall>e. get s k = Some e \<longrightarrow>
      get (invalidate s k evt ts) k = Some (e\<lparr>meta := (meta e)\<lparr>invalidatedAt := Some ts\<rparr>\<rparr>) \<and>
      data (the (get (invalidate s k evt ts) k)) = data e \<and>
      (\<forall>t. isStale (invalidate s k evt ts) k t))"
proof (intro conjI impI allI)
  assume "get s k = None"
  then show "invalidate s k evt ts = s"
    by (simp add: invalidate_def get_def)
next
  fix e assume e: "get s k = Some e"
  then show g: "get (invalidate s k evt ts) k = Some (e\<lparr>meta := (meta e)\<lparr>invalidatedAt := Some ts\<rparr>\<rparr>)"
    by (simp add: get_invalidate mark_invalidated_def)
  then show "data (the (get (invalidate s k evt ts) k)) = data e"
    by simp
  fix t
  from g show "isStale (invalidate s k evt ts) k t"
    by (simp add: isStale_def)
qed

theorem invalidate_marks_entry_witness:
  "get rewards_cache profile_root = None
   \<and> invalidate rewards_cache profile_root None 5 = rewards_cache
   \<and> get rewards_cache rewards_key \<noteq> None
   \<and> map_option data (get (invalidate rewards_cache rewards_key None 5) rewards_key) = Some 1
   \<and> isStale (invalidate rewards_cache rewards_key None 5) rewards_key 6"
proof -
  have absent: "get rewards_cache profile_root = None"
    by code_simp
  have "get rewards_cache rewards_key \<noteq> None"
    by code_simp
  then obtain e where e: "get rewards_cache rewards_key = Some e"
    by blast
  have d: "map_option data (get rewards_cache rewards_key) = Some 1"
    by code_simp
  from invalidate_marks_entry [of rewards_cache profile_root None 5]
    invalidate_marks_entry [of rewards_cache rewards_key None 5] absent e d
  show ?thesis by auto
qed

subsection \<open>Failed fetches\<close>

text \<open>
  C3. For every key, when \<^verbatim>\<open>getOrFetch(key)\<close> does not return data from a fresh entry
  (there is no entry, or it is stale) and either no fetcher is registered or the
  registered fetcher fails, the result is an \<^verbatim>\<open>{error}\<close> carrying a normalised
  \<^verbatim>\<open>AppError\<close>, and the cache is left as it was: a following \<^verbatim>\<open>get(key)\<close> returns what
  it returned before the call.
\<close>

theorem getOrFetch_failure_leaves_cache:
  assumes "get s k = None \<or> isStale s k ts"
    and "fetchers s (keyToString k) = None
         \<or> (\<exists>fetcher raw. fetchers s (keyToString k) = Some fetcher \<and> fetcher ts = Inl raw)"
  shows "(\<exists>raw. fst (getOrFetch s k ts) = Inl (toAppError raw None [(''key'', k)]))
         \<and> snd (getOrFetch s k ts) = s
         \<and> get (snd (getOrFetch s k ts)) k = get s k"
proof -
  from assms(1) have nf: "fresh_data s k ts = None"
    by (auto simp: fresh_data_def split: option.splits)
  from assms(2) show ?thesis
  proof
    assume "fetchers s (keyToString k) = None"
    with nf show ?thesis
      by (auto simp: getOrFetch_def missing_fetcher_def)
  next
    assume "\<exists>fetcher raw. fetchers s (keyToString k) = Some fetcher \<and> fetcher ts = Inl raw"
    then obtain fetcher raw where "fetchers s (keyToString k) = Some fetcher" "fetcher ts = Inl raw"
      by blast
    with nf show ?thesis
      by (auto simp: getOrFetch_def)
  qed
qed

theorem getOrFetch_failure_leaves_cache_witness:
  "isl (fst (getOrFetch throwing_cache (games_byId (GString ''1'')) 0))
   \<and> snd (getOrFetch throwing_cache (games_byId (GString ''1'')) 0) = throwing_cache
   \<and> get (snd (getOrFetch throwing_cache (games_byId (GString ''1'')) 0)) (games_byId (GString ''1'')) = None
   \<and> isl (fst (getOrFetch rewards_cache rewards_key 60000))
   \<and> map_option data (get (snd (getOrFetch rewards_cache rewards_key 60000)) rewards_key) = Some 1"
proof -
  let ?k = "games_byId (GString ''1'')"
  have none: "get throwing_cache ?k = None"
    by code_simp
  have f: "fetchers throwing_cache (keyToString ?k) = Some (\<lambda>t. Inl (Thrown ''boom''))"
    by (simp add: throwing_cache_def registerFetcher_def)
  have stale: "isStale rewards_cache rewards_key 60000"
    by code_simp
  have nofetcher: "fetchers rewards_cache (keyToString rewards_key) = None"
    by (simp add: rewards_cache_def set_entry_def Let_def enforceMaxEntries_def new_QueryCache_def)
  have d: "map_option data (get rewards_cache rewards_key) = Some 1"
    by code_simp
  from getOrFetch_failure_leaves_cache [of throwing_cache ?k 0]
    getOrFetch_failure_leaves_cache [of rewards_cache rewards_key 60000]
    none f stale nofetcher d
  show ?thesis by auto
qed

text \<open>
  C4. For every key that has a stored entry and a registered fetcher, if the fetcher
  fails then \<^verbatim>\<open>refetch(key)\<close> returns a normalised \<^verbatim>\<open>{error}\<close>; the state is the one
  \<^verbatim>\<open>invalidate\<close> produces when called with an event of reason \<open>consistency_check\<close>;
  a following \<^verbatim>\<open>get(key)\<close> returns the entry with its previous data and
  \<open>invalidatedAt = now\<close>, and \<^verbatim>\<open>isStale(key)\<close> is true at every instant.
\<close>

theorem refetch_failure_keeps_data:
  assumes "get s k = Some e"
    and "fetchers s (keyToString k) = Some fetcher"
    and "fetcher ts = Inl raw"
  shows "fst (refetch s k ts) = Inl (toAppError raw None [(''key'', k)])
         \<and> snd (refetch s k ts) = invalidate s k (Some (consistency_event ts)) ts
         \<and> reason (consistency_event ts) = consistency_check
         \<and> get (snd (refetch s k ts)) k = Some (e\<lparr>meta := (meta e)\<lparr>invalidatedAt := Some ts\<rparr>\<rparr>)
         \<and> data (the (get (snd (refetch s k ts)) k)) = data e
         \<and> (\<forall>t. isStale (snd (refetch s k ts)) k t)"
proof -
  have r: "refetch s k ts =
      (Inl (toAppError raw None [(''key'', k)]), invalidate s k (Some (consistency_event ts)) ts)"
    using assms(2,3) by (simp add: refetch_def settle_refetch_def)
  have g: "get (invalidate s k (Some (consistency_event ts)) ts) k
      = Some (e\<lparr>meta := (meta e)\<lparr>invalidatedAt := Some ts\<rparr>\<rparr>)"
    using assms(1) by (simp add: get_invalidate mark_invalidated_def)
  show ?thesis
    using r g by (simp add: isStale_def consistency_event_def)
qed

theorem refetch_failure_keeps_data_witness:
  "isl (fst (refetch failing_cache rewards_key 5))
   \<and> map_option data (get (snd (refetch failing_cache rewards_key 5)) rewards_key) = Some 1
   \<and> isStale (snd (refetch failing_cache rewards_key 5)) rewards_key 6"
proof -
  have "get failing_cache rewards_key \<noteq> None"
    by code_simp
  then obtain e where e: "get failing_cache rewards_key = Some e"
    by blast
  have d: "map_option data (get failing_cache rewards_key) = Some 1"
    by code_simp
  have f: "fetchers failing_cache (keyToString rewards_key) = Some (\<lambda>t. Inl (Thrown ''boom''))"
    by (simp add: failing_cache_def registerFetcher_def)
  from refetch_failure_keeps_data [OF e f, where ts = 5 and raw = "Thrown ''boom''"] e d
  show ?thesis by auto
qed

subsection \<open>The refetch cycle of a key whose fetcher keeps failing\<close>







subsection \<open>\<^verbatim>\<open>hasPrefix\<close> and \<^verbatim>\<open>invalidatePrefix\<close>\<close>



text \<open>Unless the prefix holds a NaN, this is equality of the leading segments as values.\<close>

lemma leading_segments_equal_iff_take:
  assumes "SNumber NaN \<notin> set prefix"
  shows "leading_segments_equal k prefix \<longleftrightarrow> take (length prefix) k = prefix"
proof
  assume l: "leading_segments_equal k prefix"
  then have "length prefix \<le> length k" and "\<forall>i < length prefix. k ! i = prefix ! i"
    by (auto simp: leading_segments_equal_def strict_eq_def)
  then show "take (length prefix) k = prefix"
    by (auto intro: nth_equalityI)
next
  assume t: "take (length prefix) k = prefix"
  then have "length (take (length prefix) k) = length prefix"
    by simp
  then have len: "length prefix \<le> length k"
    by simp
  have "strict_eq (k ! i) (prefix ! i)" if "i < length prefix" for i
  proof -
    from t that have "k ! i = prefix ! i"
      by (metis nth_take)
    moreover from that assms have "prefix ! i \<noteq> SNumber NaN"
      by (metis nth_mem)
    ultimately show ?thesis
      by (simp add: strict_eq_def)
  qed
  with len show "leading_segments_equal k prefix"
    by (simp add: leading_segments_equal_def)
qed




section \<open>Properties of the rule engine\<close>

lemma invalidateBalances_alt:
  "invalidateBalances s addrs evt ts =
    invalidate_where (\<lambda>k. True) s (map balances_account addrs) (Some evt) ts"
  by (simp add: invalidateBalances_def invalidate_where_def foldl_map)

lemma invalidateCoinFlip_alt:
  "invalidateCoinFlip s addrs (Some g) evt ts =
    invalidate_where (\<lambda>k. True) s (games_byId g # map games_recentByAddress addrs) (Some evt) ts"
  by (simp add: invalidateCoinFlip_def invalidate_where_def foldl_map games_byId_def)

lemma applyRules_coinFlip_alt:
  assumes "contractTx (event input) = Some c" and "contract c = ''coinFlip''"
    and "gameId c = Some g" and "addresses c = Some A"
  shows "applyRules s input ts =
    invalidate_where (\<lambda>k. True) s
      (map balances_account A @ games_byId g # map games_recentByAddress A)
      (Some (rule_event input ts)) ts"
  using assms
  by (simp add: applyRules_def Let_def rule_event_def rule_addresses_def contract_is_def
      invalidateBalances_alt invalidateCoinFlip_alt)

text \<open>
  C6. For every input of \<^verbatim>\<open>applyRules\<close> whose event carries a contract-transaction
  context with contract \<^verbatim>\<open>"coinFlip"\<close>, a game id \<open>g\<close> and affected addresses \<open>A\<close>
  (whatever the outcome, a successful one included): \<^verbatim>\<open>games.byId(String(g))\<close>,
  \<^verbatim>\<open>games.recentByAddress(a)\<close> and \<^verbatim>\<open>balances.account(a)\<close> for every \<open>a\<close> in \<open>A\<close> are
  invalidated. An entry stored under one of these keys has \<open>invalidatedAt = now\<close>
  afterwards and is otherwise unchanged, so \<^verbatim>\<open>isStale\<close> is true for it; a key without an
  entry stays without one.
\<close>

theorem applyRules_coinFlip:
  assumes "contractTx (event input) = Some c" and "contract c = ''coinFlip''"
    and "gameId c = Some g" and "addresses c = Some A"
  shows "\<forall>k \<in> {games_byId g} \<union> games_recentByAddress ` set A \<union> balances_account ` set A.
    get (applyRules s input ts) k
      = map_option (\<lambda>e. e\<lparr>meta := (meta e)\<lparr>invalidatedAt := Some ts\<rparr>\<rparr>) (get s k)
    \<and> (get s k \<noteq> None \<longrightarrow> (\<forall>t. isStale (applyRules s input ts) k t))"
proof
  fix k assume k: "k \<in> {games_byId g} \<union> games_recentByAddress ` set A \<union> balances_account ` set A"
  let ?ks = "map balances_account A @ games_byId g # map games_recentByAddress A"
  from k have "k \<in> set ?ks" by auto
  then have "\<exists>k' \<in> set ?ks. True \<and> keyToString k' = keyToString k" by blast
  then have g: "get (applyRules s input ts) k = map_option (mark_invalidated ts) (get s k)"
    unfolding applyRules_coinFlip_alt [OF assms] get_invalidate_where by simp
  have "isStale (applyRules s input ts) k t" if "get s k \<noteq> None" for t
    using that g by (auto simp: isStale_def)
  with g show "get (applyRules s input ts) k
      = map_option (\<lambda>e. e\<lparr>meta := (meta e)\<lparr>invalidatedAt := Some ts\<rparr>\<rparr>) (get s k)
    \<and> (get s k \<noteq> None \<longrightarrow> (\<forall>t. isStale (applyRules s input ts) k t))"
    by (simp add: mark_invalidated_def [abs_def])
qed

theorem applyRules_coinFlip_witness:
  "isStale (applyRules gaddr_cache coinFlip_input 5) (games_byId (GString ''7'')) 6
   \<and> isStale (applyRules gaddr_cache coinFlip_input 5) (games_recentByAddress ''GADDR'') 6
   \<and> isStale (applyRules gaddr_cache coinFlip_input 5) (balances_account ''GADDR'') 6
   \<and> \<not> isStale gaddr_cache (games_byId (GString ''7'')) 6"
proof -
  let ?c = "\<lparr>contract = ''coinFlip'', tx_method = ''play'', txHash = None,
         addresses = Some [''GADDR''], gameId = Some (GNumber (Finite 7))\<rparr>"
  have c: "contractTx (event coinFlip_input) = Some ?c"
    by (simp add: coinFlip_input_def)
  have k: "games_byId (GNumber (Finite 7)) = games_byId (GString ''7'')"
    by code_simp
  have stored: "get gaddr_cache (games_byId (GString ''7'')) \<noteq> None
    \<and> get gaddr_cache (games_recentByAddress ''GADDR'') \<noteq> None
    \<and> get gaddr_cache (balances_account ''GADDR'') \<noteq> None"
    by code_simp
  have fresh: "\<not> isStale gaddr_cache (games_byId (GString ''7'')) 6"
    by code_simp
  from applyRules_coinFlip [OF c, where g = "GNumber (Finite 7)" and A = "[''GADDR'']"
      and s = gaddr_cache and ts = 5] k stored fresh
  show ?thesis by simp
qed

text \<open>
  C2. The claim: when the event of \<^verbatim>\<open>applyRules\<close> names the contract \<^verbatim>\<open>"prizePool"\<close>,
  every stored key of the \<open>balances\<close> namespace is invalidated. The rule calls
  \<^verbatim>\<open>invalidatePrefix\<close> with \<^verbatim>\<open>QueryKeys.balances.root()\<close>, which is the key
  \<^verbatim>\<open>["balances", "root"]\<close> and not the namespace \<^verbatim>\<open>["balances"]\<close>: it is no prefix of
  \<^verbatim>\<open>balances.account(address)\<close>. With an entry stored for
  \<^verbatim>\<open>balances.account("GADDR")\<close> and a prize-pool transaction that lists another address,
  the entry is in the namespace and stays fresh.
\<close>

theorem applyRules_prizePool_misses_account:
  "get gaddr_cache (balances_account ''GADDR'') \<noteq> None
   \<and> take 1 (balances_account ''GADDR'') = [SString ''balances'']
   \<and> \<not> hasPrefix (balances_account ''GADDR'') balances_root
   \<and> get (applyRules gaddr_cache prizePool_input 5) (balances_account ''GADDR'')
       = get gaddr_cache (balances_account ''GADDR'')
   \<and> \<not> isStale (applyRules gaddr_cache prizePool_input 5) (balances_account ''GADDR'') 6"
  by code_simp

section \<open>The slot invariant in every reachable state\<close>

text \<open>
  A new cache has the invariant (\<open>slots_consistent_new\<close>) and every operation of the
  store and of the rule engine keeps it.
\<close>

lemma foldl_delete_consistent:
  "distinct (map fst es) \<and> list_all P es \<Longrightarrow>
    distinct (map fst (foldl (\<lambda>es v. AList.delete (g v) es) es vs))
    \<and> list_all P (foldl (\<lambda>es v. AList.delete (g v) es) es vs)"
  by (induction vs arbitrary: es) (simp_all add: distinct_delete list_all_delete)

lemma slots_consistent_enforceMaxEntries:
  "slots_consistent s \<Longrightarrow> slots_consistent (enforceMaxEntries s)"
  using foldl_delete_consistent [of "entries s" "\<lambda>(slot, e). slot = keyToString (key e)"
      "\<lambda>victim. keyToString (key victim)"]
  by (auto simp: enforceMaxEntries_def Let_def slots_consistent_def split: option.splits)

lemma slots_consistent_set_entry:
  assumes "slots_consistent s"
  shows "slots_consistent (snd (set_entry s k d pol ts))"
proof -
  have "slots_consistent (s\<lparr>entries := AList.update (keyToString k) (new_entry s k d pol ts) (entries s)\<rparr>)"
    using assms by (rule slots_consistent_entries_update) simp
  then show ?thesis
    by (simp add: set_entry_def Let_def slots_consistent_enforceMaxEntries)
qed

lemma slots_consistent_remove:
  "slots_consistent s \<Longrightarrow> slots_consistent (remove s k)"
  by (simp add: remove_def slots_consistent_def distinct_delete list_all_delete)

lemma slots_consistent_getOrFetch:
  "slots_consistent s \<Longrightarrow> slots_consistent (snd (getOrFetch s k ts))"
  by (simp add: getOrFetch_def slots_consistent_set_entry split: option.splits sum.splits)

lemma slots_consistent_settle_refetch:
  "slots_consistent s \<Longrightarrow> slots_consistent (snd (settle_refetch s k res ts))"
  by (simp add: settle_refetch_def slots_consistent_set_entry slots_consistent_invalidate
      split: sum.splits)

lemma slots_consistent_refetch:
  "slots_consistent s \<Longrightarrow> slots_consistent (snd (refetch s k ts))"
  by (simp add: refetch_def slots_consistent_settle_refetch split: option.splits)

lemma slots_consistent_settle_next:
  assumes "slots_consistent s"
  shows "slots_consistent (settle_next s ts)"
proof (cases "inflight s")
  case Nil
  with assms show ?thesis by (simp add: settle_next_def)
next
  case (Cons p rest)
  obtain k res where p: "p = (k, res)" by (cases p)
  from assms have "slots_consistent (s\<lparr>inflight := rest\<rparr>)"
    by (simp add: slots_consistent_def)
  then have "slots_consistent (snd (settle_refetch (s\<lparr>inflight := rest\<rparr>) k res ts))"
    by (rule slots_consistent_settle_refetch)
  with Cons p show ?thesis by (simp add: settle_next_def)
qed

lemma slots_consistent_invalidatePrefix:
  "slots_consistent s \<Longrightarrow> slots_consistent (invalidatePrefix s prefix evt ts)"
  by (simp add: invalidatePrefix_alt slots_consistent_invalidate_where)

lemma slots_consistent_invalidateAchievementBadge:
  "slots_consistent s \<Longrightarrow> slots_consistent (invalidateAchievementBadge s addrs evt ts)"
  unfolding invalidateAchievementBadge_def
  by (induction addrs arbitrary: s) (simp_all add: slots_consistent_invalidate)

lemma slots_consistent_invalidateCoinFlip:
  "slots_consistent s \<Longrightarrow> slots_consistent (invalidateCoinFlip s addrs gid evt ts)"
proof -
  have "slots_consistent s' \<Longrightarrow>
    slots_consistent (foldl (\<lambda>s' addr. invalidate s' (games_recentByAddress addr) (Some evt) ts) s' addrs)" for s' :: "'a QueryCache"
    by (induction addrs arbitrary: s') (simp_all add: slots_consistent_invalidate)
  then show "slots_consistent s \<Longrightarrow> slots_consistent (invalidateCoinFlip s addrs gid evt ts)"
    by (simp add: invalidateCoinFlip_def Let_def slots_consistent_invalidate split: option.splits)
qed

lemma slots_consistent_applyRules:
  "slots_consistent s \<Longrightarrow> slots_consistent (applyRules s input ts)"
  by (simp add: applyRules_def Let_def invalidateBalances_alt slots_consistent_invalidate_where
      slots_consistent_invalidatePrefix slots_consistent_invalidateCoinFlip
      slots_consistent_invalidateAchievementBadge)

end
